theory Spec2Isabelle
  imports Main "HOL-Library.Word"
begin

unbundle bit_operations_syntax

section \<open>Data model of slidingwindow.go\<close>

type_synonym u8 = "8 word"
type_synonym u64 = "64 word"

text \<open>\<^verbatim>\<open>type Reason uint8\<close> with its four \<^verbatim>\<open>iota\<close> constants.\<close>

datatype Reason = ReasonFirst | ReasonReuse | ReasonShift | ReasonOutOfWindow

text \<open>
  \<^verbatim>\<open>type Int256 [4]uint64\<close>: a Go array is a value of exactly four words, so it is
  a 4-tuple here; component \<open>k\<close> of the tuple is \<^verbatim>\<open>i[k]\<close>.
\<close>

type_synonym Int256 = "u64 \<times> u64 \<times> u64 \<times> u64"

text \<open>
  Indexing \<^verbatim>\<open>i[k]\<close> for reading and writing. Go panics for an index outside
  \<open>0..3\<close>; the only index expression of the source is \<^verbatim>\<open>a/64\<close> with \<open>a\<close> a
  \<^verbatim>\<open>uint8\<close>, which lemma \<open>word_index_in_range\<close> below shows to be at most 3, so the
  last equation of each function is reached for index 3 only.
\<close>

fun index256 :: "Int256 \<Rightarrow> nat \<Rightarrow> u64" where
  "index256 (i0, i1, i2, i3) k =
     (if k = 0 then i0 else if k = 1 then i1 else if k = 2 then i2 else i3)"

fun update256 :: "Int256 \<Rightarrow> nat \<Rightarrow> u64 \<Rightarrow> Int256" where
  "update256 (i0, i1, i2, i3) k v =
     (if k = 0 then (v, i1, i2, i3) else if k = 1 then (i0, v, i2, i3)
      else if k = 2 then (i0, i1, v, i3) else (i0, i1, i2, v))"

text \<open>
  \<^verbatim>\<open>shiftLeft\<close>: the \<^verbatim>\<open>switch a / 64\<close> moves whole words by sequential
  assignments, then the four assignments after it shift by \<^verbatim>\<open>b := a % 64\<close>. Go defines
  a shift of a \<^verbatim>\<open>uint64\<close> by a count of 64 or more as 0, which is what \<open>push_bit\<close> and
  \<open>drop_bit\<close> give on \<open>64 word\<close>. Each \<open>let\<close> rebinds one array element, in the
  order of the source.
\<close>

definition shiftLeft :: "Int256 \<Rightarrow> u64 \<Rightarrow> Int256" where
  "shiftLeft i a =
     (case i of (i0, i1, i2, i3) \<Rightarrow>
        let (i0, i1, i2, i3) =
              (if a div 64 = 0 then (i0, i1, i2, i3)
               else if a div 64 = 1 then
                 (let i0 = i1; i1 = i2; i2 = i3; i3 = 0 in (i0, i1, i2, i3))
               else if a div 64 = 2 then
                 (let i0 = i2; i1 = i3; i2 = 0; i3 = 0 in (i0, i1, i2, i3))
               else if a div 64 = 3 then
                 (let i0 = i3; i1 = 0; i2 = 0; i3 = 0 in (i0, i1, i2, i3))
               else
                 (let i0 = 0; i1 = 0; i2 = 0; i3 = 0 in (i0, i1, i2, i3)));
            b = a mod 64;
            i0 = push_bit (unat b) i0 OR drop_bit (unat (64 - b)) i1;
            i1 = push_bit (unat b) i1 OR drop_bit (unat (64 - b)) i2;
            i2 = push_bit (unat b) i2 OR drop_bit (unat (64 - b)) i3;
            i3 = push_bit (unat b) i3
        in (i0, i1, i2, i3))"

text \<open>
  \<^verbatim>\<open>i[a/64] = i[a/64] | 0x01<<(63-(a%64))\<close>: the untyped constant takes the type
  \<^verbatim>\<open>uint64\<close> of the other operand; the shift count is a \<^verbatim>\<open>uint8\<close>.
\<close>

definition setBit :: "Int256 \<Rightarrow> u8 \<Rightarrow> Int256" where
  "setBit i a =
     update256 i (unat (a div 64))
       (index256 i (unat (a div 64)) OR push_bit (unat (63 - a mod 64)) (1 :: u64))"

definition isBitSet :: "Int256 \<Rightarrow> u8 \<Rightarrow> bool" where
  "isBitSet i a =
     (index256 i (unat (a div 64)) AND push_bit (unat (63 - a mod 64)) (1 :: u64) \<noteq> 0)"

record SlidingWindow =
  offset :: u64
  bitmap :: Int256

text \<open>\<^verbatim>\<open>new(SlidingWindow)\<close> in \<^verbatim>\<open>main\<close>: the zero value of the struct.\<close>

definition new_SlidingWindow :: SlidingWindow where
  "new_SlidingWindow = \<lparr>offset = 0, bitmap = (0, 0, 0, 0)\<rparr>"

definition windowSize :: u64 where
  "windowSize = 256"

text \<open>
  The methods have a pointer receiver; the model passes the window in and returns it
  with the result. Additions and subtractions are those of \<^verbatim>\<open>uint64\<close>: they wrap.
  \<^verbatim>\<open>uint8(x)\<close> keeps the low 8 bits (\<open>ucast\<close>).
\<close>

definition CheckAndSetNonce :: "SlidingWindow \<Rightarrow> u64 \<Rightarrow> (Reason \<times> bool) \<times> SlidingWindow" where
  "CheckAndSetNonce window nonce =
     (if nonce < offset window then ((ReasonOutOfWindow, False), window)
      else if nonce \<ge> offset window + windowSize then
        (let newOffset = nonce - windowSize + 1;
             shift = newOffset - offset window;
             window = window\<lparr>offset := newOffset\<rparr>;
             window = window\<lparr>bitmap := shiftLeft (bitmap window) shift\<rparr>;
             window = window\<lparr>bitmap := setBit (bitmap window) (ucast (nonce - offset window))\<rparr>
         in ((ReasonShift, True), window))
      else
        (let bitPos = (ucast (nonce - offset window) :: u8) in
           if isBitSet (bitmap window) bitPos then ((ReasonReuse, False), window)
           else ((ReasonFirst, True), window\<lparr>bitmap := setBit (bitmap window) bitPos\<rparr>)))"

definition CheckNonce :: "SlidingWindow \<Rightarrow> u64 \<Rightarrow> (Reason \<times> bool) \<times> SlidingWindow" where
  "CheckNonce window nonce =
     (if nonce < offset window then ((ReasonOutOfWindow, False), window)
      else if nonce \<ge> offset window + windowSize then ((ReasonShift, True), window)
      else
        (let bitPos = (ucast (nonce - offset window) :: u8) in
           if isBitSet (bitmap window) bitPos then ((ReasonReuse, False), window)
           else ((ReasonFirst, True), window)))"

text \<open>
  The loop of \<^verbatim>\<open>main\<close>: the nonces are applied in order to one window; the model
  collects each call's result and the offset after it (the columns \<^verbatim>\<open>main\<close> prints).
\<close>

fun apply_nonces :: "SlidingWindow \<Rightarrow> u64 list \<Rightarrow> ((Reason \<times> bool) \<times> u64) list \<times> SlidingWindow" where
  "apply_nonces window [] = ([], window)"
| "apply_nonces window (nonce # nonces) =
     (let (r, window') = CheckAndSetNonce window nonce;
          (rs, window'') = apply_nonces window' nonces
      in ((r, offset window') # rs, window''))"

text \<open>A run of peeks on one window, with no committing call in between.\<close>

fun peek_nonces :: "SlidingWindow \<Rightarrow> u64 list \<Rightarrow> (Reason \<times> bool) list \<times> SlidingWindow" where
  "peek_nonces window [] = ([], window)"
| "peek_nonces window (nonce # nonces) =
     (let (r, window') = CheckNonce window nonce;
          (rs, window'') = peek_nonces window' nonces
      in (r # rs, window''))"

text \<open>
  The number an \<^verbatim>\<open>Int256\<close> stands for: word 0 is the most significant (the order in
  which \<^verbatim>\<open>printWindow\<close> prints the words).
\<close>

fun val256 :: "Int256 \<Rightarrow> nat" where
  "val256 (i0, i1, i2, i3) =
     unat i0 * 2 ^ 192 + unat i1 * 2 ^ 128 + unat i2 * 2 ^ 64 + unat i3"

text \<open>
  The same number as one 256-bit word: the four words side by side, word 0 on top. It is
  the bridge between the four-word code and the bitwise facts of the word library.
\<close>

definition to256 :: "Int256 \<Rightarrow> 256 word" where
  "to256 i =
     (case i of (i0, i1, i2, i3) \<Rightarrow>
        push_bit 192 (ucast i0) OR push_bit 128 (ucast i1) OR push_bit 64 (ucast i2) OR ucast i3)"

text \<open>
  Three notions for stating what a run of calls does. \<open>in_range\<close>: the upper end
  \<open>offset + 256\<close> of the window is still a \<^verbatim>\<open>uint64\<close>, so the sum in the second test
  of \<^verbatim>\<open>CheckAndSetNonce\<close> does not wrap. \<open>recorded w n\<close>: the nonce is below the window
  or its bit is set in it. \<open>accepted_nonces\<close>: the nonces of a run of \<^verbatim>\<open>main\<close>'s loop
  whose call returned \<^verbatim>\<open>true\<close>, in order.
\<close>

definition in_range :: "SlidingWindow \<Rightarrow> bool" where
  "in_range w = (unat (offset w) < 2 ^ 64 - 256)"

definition recorded :: "SlidingWindow \<Rightarrow> u64 \<Rightarrow> bool" where
  "recorded w n =
     (unat n < unat (offset w) \<or>
      unat n < unat (offset w) + 256 \<and> isBitSet (bitmap w) (ucast (n - offset w)))"

definition accepted_nonces :: "SlidingWindow \<Rightarrow> u64 list \<Rightarrow> u64 list" where
  "accepted_nonces w ns =
     map fst (filter (\<lambda>(n, r, off). snd r) (zip ns (fst (apply_nonces w ns))))"

section \<open>Array indices stay in range\<close>

lemma word_index_in_range: "unat ((a :: u8) div 64) < 4"
proof -
  have "unat (a div 64) = unat a div 64"
    by (simp add: unat_div)
  moreover have "unat a < 256"
    using unsigned_less [of a, where ?'a = nat] by simp
  ultimately show ?thesis by simp
qed

lemma bit_count_in_range:
  "unat (63 - (a :: u8) mod 64) < 64 \<and> unat (63 - a mod 64) = 63 - unat a mod 64"
proof -
  have m: "unat (a mod 64) = unat a mod 64"
    by (simp add: unat_mod)
  then have "unat (a mod 64) \<le> 63"
    by simp
  then have "a mod 64 \<le> 63"
    by (simp add: word_le_nat_alt)
  then have "unat (63 - a mod 64) = 63 - unat (a mod 64)"
    by (simp add: unat_sub)
  with m show ?thesis by simp
qed

section \<open>The bitmap as one 256-bit number\<close>

lemma val256_less: "val256 i < 2 ^ 256"
proof (cases i)
  case (fields i0 i1 i2 i3)
  have "unat i0 < 2 ^ 64" "unat i1 < 2 ^ 64" "unat i2 < 2 ^ 64" "unat i3 < 2 ^ 64"
    using unsigned_less [of i0, where ?'a = nat] unsigned_less [of i1, where ?'a = nat]
      unsigned_less [of i2, where ?'a = nat] unsigned_less [of i3, where ?'a = nat]
    by simp_all
  with fields show ?thesis by simp
qed

lemma to256_plus:
  "to256 (i0, i1, i2, i3) =
     push_bit 192 (ucast i0) + (push_bit 128 (ucast i1) + (push_bit 64 (ucast i2) + ucast i3))"
proof -
  have 1: "push_bit 64 (ucast i2 :: 256 word) + ucast i3 = push_bit 64 (ucast i2) OR ucast i3"
    by (rule disjunctive_add) (auto simp add: bit_simps dest: bit_imp_le_length)
  have 2: "push_bit 128 (ucast i1 :: 256 word) + (push_bit 64 (ucast i2) OR ucast i3) =
      push_bit 128 (ucast i1) OR push_bit 64 (ucast i2) OR ucast i3"
    by (rule disjunctive_add) (auto simp add: bit_simps dest: bit_imp_le_length)
  have 3: "push_bit 192 (ucast i0 :: 256 word) +
        (push_bit 128 (ucast i1) OR push_bit 64 (ucast i2) OR ucast i3) =
      push_bit 192 (ucast i0) OR push_bit 128 (ucast i1) OR push_bit 64 (ucast i2) OR ucast i3"
    by (rule disjunctive_add) (auto simp add: bit_simps dest: bit_imp_le_length)
  show ?thesis
    by (simp only: to256_def prod.case 1 2 3)
qed

lemma to256_of_nat: "to256 i = word_of_nat (val256 i)"
proof (cases i)
  case (fields i0 i1 i2 i3)
  have u: "ucast w = (word_of_nat (unat w) :: 256 word)" for w :: u64
    by simp
  show ?thesis
    unfolding fields to256_plus val256.simps
    by (simp only: u push_bit_eq_mult of_nat_add of_nat_mult of_nat_power of_nat_numeral add.assoc)
qed

lemma unat_to256: "unat (to256 i) = val256 i"
  using val256_less [of i] by (simp add: to256_of_nat unat_of_nat)

lemma unat_push_bit_256: "unat (push_bit n (w :: 256 word)) = (unat w * 2 ^ n) mod 2 ^ 256"
  by (simp add: unsigned_push_bit_eq take_bit_nat_def push_bit_nat_def)

lemma bit_to256:
  "bit (to256 (i0, i1, i2, i3)) n \<longleftrightarrow>
     (if n < 64 then bit i3 n
      else if n < 128 then bit i2 (n - 64)
      else if n < 192 then bit i1 (n - 128)
      else if n < 256 then bit i0 (n - 192)
      else False)"
  by (auto simp add: to256_def bit_simps dest: bit_imp_le_length)

lemma carry_bit:
  fixes hi lo :: u64
  assumes "b < 64" "m < 64"
  shows "bit (push_bit b hi OR drop_bit (64 - b) lo) m =
     (if b \<le> m then bit hi (m - b) else bit lo (m + 64 - b))"
proof (cases "b \<le> m")
  case True
  then have "\<not> bit lo (64 - b + m)"
    using assms by (auto dest: bit_imp_le_length)
  with True assms show ?thesis by (simp add: bit_simps)
next
  case False
  then have "64 - b + m = m + 64 - b" using assms by simp
  with False assms show ?thesis by (simp add: bit_simps)
qed

lemma low_bit:
  fixes lo :: u64
  assumes "b < 64" "m < 64"
  shows "bit (push_bit b lo) m = (b \<le> m \<and> bit lo (m - b))"
  using assms by (simp add: bit_simps)

lemma sub_shift:
  assumes b: "b < 64"
  shows "to256 (push_bit b i0 OR drop_bit (64 - b) i1,
            push_bit b i1 OR drop_bit (64 - b) i2,
            push_bit b i2 OR drop_bit (64 - b) i3,
            push_bit b i3) = push_bit b (to256 (i0, i1, i2, i3))"
proof (rule bit_eqI)
  fix n
  assume "possible_bit TYPE(256 word) n"
  then have n: "n < 256" by simp
  consider "n < 64" | "64 \<le> n" "n < 128" | "128 \<le> n" "n < 192" | "192 \<le> n"
    by linarith
  then show "bit (to256 (push_bit b i0 OR drop_bit (64 - b) i1,
            push_bit b i1 OR drop_bit (64 - b) i2,
            push_bit b i2 OR drop_bit (64 - b) i3,
            push_bit b i3)) n = bit (push_bit b (to256 (i0, i1, i2, i3))) n"
  proof cases
    case 1
    then have "n - b < 64" by simp
    with 1 show ?thesis using b
      by (simp add: bit_to256 bit_push_bit_iff low_bit)
  next
    case 2
    then have m: "n - 64 < 64" by simp
    show ?thesis
    proof (cases "b \<le> n - 64")
      case True
      with 2 b have "n - 64 - b = n - b - 64" "\<not> n - b < 64" "n - b < 128" "b \<le> n" by simp_all
      with 2 True show ?thesis
        by (simp add: bit_to256 bit_push_bit_iff carry_bit [OF b m])
    next
      case False
      with 2 b have "n - 64 + 64 - b = n - b" "n - b < 64" "b \<le> n" by simp_all
      with 2 False show ?thesis
        by (simp add: bit_to256 bit_push_bit_iff carry_bit [OF b m])
    qed
  next
    case 3
    then have m: "n - 128 < 64" by simp
    show ?thesis
    proof (cases "b \<le> n - 128")
      case True
      with 3 b have "n - 128 - b = n - b - 128" "\<not> n - b < 128" "n - b < 192" "b \<le> n" by simp_all
      with 3 True show ?thesis
        by (simp add: bit_to256 bit_push_bit_iff carry_bit [OF b m])
    next
      case False
      with 3 b have "n - 128 + 64 - b = n - b - 64" "n - b < 128" "\<not> n - b < 64" "b \<le> n" by simp_all
      with 3 False show ?thesis
        by (simp add: bit_to256 bit_push_bit_iff carry_bit [OF b m])
    qed
  next
    case 4
    with n have m: "n - 192 < 64" by simp
    show ?thesis
    proof (cases "b \<le> n - 192")
      case True
      with 4 n b have "n - 192 - b = n - b - 192" "\<not> n - b < 192" "n - b < 256" "b \<le> n" by simp_all
      with 4 n True show ?thesis
        by (simp add: bit_to256 bit_push_bit_iff carry_bit [OF b m])
    next
      case False
      with 4 b have "n - 192 + 64 - b = n - b - 128" "n - b < 192" "\<not> n - b < 128" "b \<le> n" by simp_all
      with 4 n False show ?thesis
        by (simp add: bit_to256 bit_push_bit_iff carry_bit [OF b m])
    qed
  qed
qed

lemma to256_zero: "to256 (0, 0, 0, 0) = 0"
  by (simp add: to256_def)

lemma move_one: "to256 (i1, i2, i3, 0) = push_bit 64 (to256 (i0, i1, i2, i3))"
  by (rule bit_eqI) (auto simp add: bit_to256 bit_push_bit_iff)

lemma move_two: "to256 (i2, i3, 0, 0) = push_bit 128 (to256 (i0, i1, i2, i3))"
  by (rule bit_eqI) (auto simp add: bit_to256 bit_push_bit_iff)

lemma move_three: "to256 (i3, 0, 0, 0) = push_bit 192 (to256 (i0, i1, i2, i3))"
  by (rule bit_eqI) (auto simp add: bit_to256 bit_push_bit_iff)

lemma push_bit_256_zero: "256 \<le> n \<Longrightarrow> push_bit n (w :: 256 word) = 0"
  by (rule bit_eqI) (simp add: bit_push_bit_iff)

lemma shiftLeft_to256: "to256 (shiftLeft i a) = push_bit (unat a) (to256 i)"
proof (cases i)
  case (fields i0 i1 i2 i3)
  define q where "q = unat a div 64"
  define b where "b = unat a mod 64"
  have b: "b < 64" by (simp add: b_def)
  have a: "unat a = b + 64 * q" by (simp add: q_def b_def)
  have ub: "unat (a mod 64) = b" by (simp add: b_def unat_mod)
  have us: "unat (64 - a mod 64) = 64 - b"
  proof -
    have "a mod 64 \<le> 64" using ub b by (simp add: word_le_nat_alt)
    then show ?thesis using ub by (simp add: unat_sub)
  qed
  have uq: "unat (a div 64) = q" by (simp add: q_def unat_div)
  have qk: "a div 64 = 0 \<longleftrightarrow> q = 0" "a div 64 = 1 \<longleftrightarrow> q = 1"
    "a div 64 = 2 \<longleftrightarrow> q = 2" "a div 64 = 3 \<longleftrightarrow> q = 3"
    using uq by (auto simp add: word_unat_eq_iff)
  have pp: "push_bit b (push_bit n w) = push_bit (b + n) w" for n and w :: "256 word"
    by (simp add: push_bit_push_bit)
  consider "q = 0" | "q = 1" | "q = 2" | "q = 3" | "4 \<le> q" by linarith
  then show ?thesis
  proof cases
    case 1
    then have "shiftLeft (i0, i1, i2, i3) a =
        (push_bit b i0 OR drop_bit (64 - b) i1, push_bit b i1 OR drop_bit (64 - b) i2,
         push_bit b i2 OR drop_bit (64 - b) i3, push_bit b i3)"
      by (simp add: shiftLeft_def qk ub us Let_def)
    with 1 show ?thesis
      by (simp only: fields sub_shift [OF b] a) simp
  next
    case 2
    then have "shiftLeft (i0, i1, i2, i3) a =
        (push_bit b i1 OR drop_bit (64 - b) i2, push_bit b i2 OR drop_bit (64 - b) i3,
         push_bit b i3 OR drop_bit (64 - b) 0, push_bit b 0)"
      by (simp add: shiftLeft_def qk ub us Let_def)
    with 2 show ?thesis
      by (simp only: fields sub_shift [OF b] a move_one [of i1 i2 i3 i0] pp) simp
  next
    case 3
    then have "shiftLeft (i0, i1, i2, i3) a =
        (push_bit b i2 OR drop_bit (64 - b) i3, push_bit b i3 OR drop_bit (64 - b) 0,
         push_bit b 0 OR drop_bit (64 - b) 0, push_bit b 0)"
      by (simp add: shiftLeft_def qk ub us Let_def)
    with 3 show ?thesis
      by (simp only: fields sub_shift [OF b] a move_two [of i2 i3 i0 i1] pp) simp
  next
    case 4
    then have "shiftLeft (i0, i1, i2, i3) a =
        (push_bit b i3 OR drop_bit (64 - b) 0, push_bit b 0 OR drop_bit (64 - b) 0,
         push_bit b 0 OR drop_bit (64 - b) 0, push_bit b 0)"
      by (simp add: shiftLeft_def qk ub us Let_def)
    with 4 show ?thesis
      by (simp only: fields sub_shift [OF b] a move_three [of i3 i0 i1 i2] pp) simp
  next
    case 5
    then have "256 \<le> unat a" using a by simp
    then have z: "push_bit (unat a) (to256 (i0, i1, i2, i3)) = 0"
      by (rule push_bit_256_zero)
    from 5 have "shiftLeft (i0, i1, i2, i3) a = (0, 0, 0, 0)"
      by (simp add: shiftLeft_def qk ub us Let_def)
    then show ?thesis
      by (simp only: fields z to256_zero)
  qed
qed

lemma shiftLeft_ge_256: "256 \<le> unat a \<Longrightarrow> shiftLeft i a = (0, 0, 0, 0)"
proof (cases i)
  case (fields i0 i1 i2 i3)
  assume "256 \<le> unat a"
  then have "4 \<le> unat (a div 64)" by (simp add: unat_div)
  then have "a div 64 \<noteq> 0" "a div 64 \<noteq> 1" "a div 64 \<noteq> 2" "a div 64 \<noteq> 3"
    by auto
  then show ?thesis
    by (simp add: fields shiftLeft_def)
qed

lemma shiftLeft_val: "val256 (shiftLeft x a) = (val256 x * 2 ^ unat a) mod 2 ^ 256"
  using unat_push_bit_256 [of "unat a" "to256 x"]
  by (simp only: shiftLeft_to256 [symmetric] unat_to256)

section \<open>Setting and testing one bit\<close>

lemma and_mask_bit:
  assumes "k < 64"
  shows "(w AND (2 :: u64) ^ k \<noteq> 0) = bit w k"
proof -
  have "bit (w AND 2 ^ k) k = bit w k"
    using assms by (simp add: bit_simps)
  moreover have "w AND 2 ^ k = 0" if "\<not> bit w k"
    by (rule bit_eqI) (use that in \<open>auto simp add: bit_simps\<close>)
  ultimately show ?thesis by auto
qed

lemma or_mask_bit: "k < 64 \<Longrightarrow> bit (w OR (2 :: u64) ^ k) m = (bit w m \<or> m = k)"
  by (auto simp add: bit_simps)

lemma isBitSet_bit: "isBitSet i p = bit (index256 i (unat p div 64)) (63 - unat p mod 64)"
proof -
  have "63 - unat p mod 64 < 64" by simp
  then show ?thesis
    by (simp add: isBitSet_def unat_div and_mask_bit bit_count_in_range)
qed

lemma setBit_update:
  "setBit i p = update256 i (unat p div 64)
     (index256 i (unat p div 64) OR push_bit (63 - unat p mod 64) 1)"
  by (simp add: setBit_def unat_div bit_count_in_range)

lemma index256_update256:
  "k < 4 \<Longrightarrow> k' < 4 \<Longrightarrow> index256 (update256 i k v) k' = (if k' = k then v else index256 i k')"
  by (cases i) auto

lemma isBitSet_setBit: "isBitSet (setBit x p) q = (q = p \<or> isBitSet x q)"
proof -
  have p: "unat p div 64 < 4" and q: "unat q div 64 < 4"
    using word_index_in_range [of p] word_index_in_range [of q] by (simp_all add: unat_div)
  have kp: "63 - unat p mod 64 < 64" by simp
  have eq: "q = p \<longleftrightarrow> unat q div 64 = unat p div 64 \<and> 63 - unat q mod 64 = 63 - unat p mod 64"
  proof
    assume "q = p" then show "unat q div 64 = unat p div 64 \<and> 63 - unat q mod 64 = 63 - unat p mod 64" by simp
  next
    assume h: "unat q div 64 = unat p div 64 \<and> 63 - unat q mod 64 = 63 - unat p mod 64"
    have "unat q mod 64 < 64" "unat p mod 64 < 64" by simp_all
    with h have "unat q mod 64 = unat p mod 64" by linarith
    with h have "unat q = unat p"
      by (metis div_mult_mod_eq)
    then show "q = p" by (simp add: word_unat_eq_iff)
  qed
  show ?thesis
    unfolding isBitSet_bit setBit_update index256_update256 [OF p q] eq
    by (auto simp add: or_mask_bit [OF kp])
qed

lemma isBitSet_to256: "isBitSet i p = bit (to256 i) (255 - unat p)"
proof (cases i)
  case (fields i0 i1 i2 i3)
  define P where "P = unat p"
  have "P < 256" using unsigned_less [of p, where ?'a = nat] by (simp add: P_def)
  then consider "P < 64" | "64 \<le> P" "P < 128" | "128 \<le> P" "P < 192" | "192 \<le> P" "P < 256"
    by linarith
  then have "bit (index256 (i0, i1, i2, i3) (P div 64)) (63 - P mod 64) =
      bit (to256 (i0, i1, i2, i3)) (255 - P)"
  proof cases
    case 1
    then have "P div 64 = 0" "P mod 64 = P" "255 - P - 192 = 63 - P" "\<not> 255 - P < 192"
      "255 - P < 256"
      by simp_all
    then show ?thesis by (simp add: bit_to256)
  next
    case 2
    then have "P div 64 = 1" "P mod 64 = P - 64" "255 - P - 128 = 63 - (P - 64)"
      "\<not> 255 - P < 128" "255 - P < 192"
      by (simp_all add: div_nat_eqI mod_if)
    then show ?thesis by (simp add: bit_to256)
  next
    case 3
    then have "P div 64 = 2" "P mod 64 = P - 128" "255 - P - 64 = 63 - (P - 128)"
      "\<not> 255 - P < 64" "255 - P < 128"
      by (simp_all add: div_nat_eqI mod_nat_eqI)
    then show ?thesis by (simp add: bit_to256)
  next
    case 4
    then have "P div 64 = 3" "P mod 64 = P - 192" "255 - P = 63 - (P - 192)" "255 - P < 64"
      by (simp_all add: div_nat_eqI mod_nat_eqI)
    then show ?thesis by (simp add: bit_to256)
  qed
  then show ?thesis
    by (simp add: fields isBitSet_bit P_def)
qed

lemma isBitSet_shiftLeft:
  "isBitSet (shiftLeft x a) q = (unat q + unat a < 256 \<and> isBitSet x (q + ucast a))"
proof (cases "unat q + unat a < 256")
  case True
  have "unat (ucast a :: u8) = unat a mod 256"
    by (simp add: unsigned_ucast_eq take_bit_nat_def)
  with True have "unat (q + ucast a) = unat q + unat a"
    by (simp add: unat_word_ariths)
  moreover from True have "unat a \<le> 255 - unat q" "255 - unat q < 256"
    "255 - unat q - unat a = 255 - (unat q + unat a)"
    by simp_all
  ultimately show ?thesis using True
    by (simp add: isBitSet_to256 shiftLeft_to256 bit_push_bit_iff)
next
  case False
  then have "\<not> unat a \<le> 255 - unat q"
    using unsigned_less [of q, where ?'a = nat] by simp
  with False show ?thesis
    by (simp add: isBitSet_to256 shiftLeft_to256 bit_push_bit_iff)
qed

text \<open>
  Claim C8. For every 256-bit value \<open>x\<close> and all bit positions \<open>p\<close>, \<open>q\<close> (a
  \<^verbatim>\<open>uint8\<close>, so always in \<open>[0, 256)\<close>): the bit that \<^verbatim>\<open>setBit\<close> has set at \<open>p\<close> is
  seen by \<^verbatim>\<open>isBitSet\<close> at \<open>p\<close>, and at every other position \<open>q\<close> the test gives
  what it gave on \<open>x\<close>.
\<close>

theorem setBit_then_isBitSet:
  "isBitSet (setBit x p) p \<and> (q \<noteq> p \<longrightarrow> isBitSet (setBit x p) q = isBitSet x q)"
  by (simp add: isBitSet_setBit)

theorem setBit_then_isBitSet_witness:
  "(255 :: u8) \<noteq> 0 \<and> isBitSet (setBit (0, 0, 0, 0) 0) 0
   \<and> isBitSet (setBit (0, 0, 0, 0) 0) 255 = isBitSet (0, 0, 0, 0) 255"
  using setBit_then_isBitSet [of "(0, 0, 0, 0)" 0 255] by simp

section \<open>The left shift\<close>

text \<open>
  Claim C3. For every 256-bit value \<open>x\<close> and every \<^verbatim>\<open>uint64\<close> amount \<open>a\<close>,
  \<^verbatim>\<open>shiftLeft(x, a)\<close> is the number \<open>x * 2 ^ a mod 2 ^ 256\<close>: zeros come in at the
  least-significant side and what passes the most-significant edge is dropped. For
  \<open>a \<ge> 256\<close> the result is all zero, and for the amounts with sub-word remainder 0
  (0, 64, 128 and 192 below 256), where the carry \<^verbatim>\<open>i[k+1] >> (64 - b)\<close> is a shift
  by the full word width, the result is the plain move of whole words.
\<close>

theorem shiftLeft_correct:
  "val256 (shiftLeft x a) = (val256 x * 2 ^ unat a) mod 2 ^ 256
   \<and> (256 \<le> unat a \<longrightarrow> shiftLeft x a = (0, 0, 0, 0))
   \<and> shiftLeft (i0, i1, i2, i3) 0 = (i0, i1, i2, i3)
   \<and> shiftLeft (i0, i1, i2, i3) 64 = (i1, i2, i3, 0)
   \<and> shiftLeft (i0, i1, i2, i3) 128 = (i2, i3, 0, 0)
   \<and> shiftLeft (i0, i1, i2, i3) 192 = (i3, 0, 0, 0)"
proof -
  have "shiftLeft (i0, i1, i2, i3) 0 = (i0, i1, i2, i3)"
    and "shiftLeft (i0, i1, i2, i3) 64 = (i1, i2, i3, 0)"
    and "shiftLeft (i0, i1, i2, i3) 128 = (i2, i3, 0, 0)"
    and "shiftLeft (i0, i1, i2, i3) 192 = (i3, 0, 0, 0)"
    by (simp_all add: shiftLeft_def)
  then show ?thesis
    using shiftLeft_val [of x a] shiftLeft_ge_256 [of a x] by simp
qed

theorem shiftLeft_correct_witness:
  "256 \<le> unat (300 :: u64) \<and> shiftLeft (1, 2, 3, 4) 300 = (0, 0, 0, 0)
   \<and> val256 (shiftLeft (1, 2, 3, 4) 300) = 0"
  using shiftLeft_correct [of "(1, 2, 3, 4)" 300] by simp

section \<open>Arithmetic of the three-way range test\<close>

lemma no_overflow_add:
  assumes "unat (off :: u64) < 2 ^ 64 - 256"
  shows "unat (off + windowSize) = unat off + 256"
  using assms by (simp add: windowSize_def unat_word_ariths)

lemma above_window_arith:
  fixes n off :: u64
  assumes "unat off + 256 \<le> unat n"
  shows "\<not> n < off" and "off + windowSize \<le> n"
    and "unat (n - windowSize + 1 - off) = unat n - 255 - unat off"
    and "off < n - windowSize + 1"
proof -
  have nlt: "unat n < 2 ^ 64" using unsigned_less [of n, where ?'a = nat] by simp
  with assms have o: "unat off < 2 ^ 64 - 256" by simp
  show "\<not> n < off" using assms by (simp add: word_less_nat_alt)
  show "off + windowSize \<le> n" using assms no_overflow_add [OF o] by (simp add: word_le_nat_alt)
  have w: "unat (n - windowSize) = unat n - 256"
    using assms by (simp add: windowSize_def unat_sub word_le_nat_alt)
  then have 3: "unat (n - windowSize + 1) = unat n - 255"
    using assms nlt by (simp add: unat_word_ariths)
  then show "unat (n - windowSize + 1 - off) = unat n - 255 - unat off"
    using assms by (simp add: unat_sub word_le_nat_alt)
  show "off < n - windowSize + 1"
    using 3 assms by (simp add: word_less_nat_alt)
qed

text \<open>
  Whenever the code takes its second branch the nonce is at least 255, also when
  \<^verbatim>\<open>window.offset+windowSize\<close> has wrapped: the new offset \<^verbatim>\<open>nonce - windowSize + 1\<close>
  itself never wraps.
\<close>

lemma shift_branch_new_offset:
  fixes n off :: u64
  assumes "\<not> n < off" "off + windowSize \<le> n"
  shows "unat (n - windowSize + 1) = unat n - 255"
proof -
  have nlt: "unat n < 2 ^ 64" using unsigned_less [of n, where ?'a = nat] by simp
  have "255 \<le> unat n"
  proof (cases "unat off < 2 ^ 64 - 256")
    case True
    from no_overflow_add [OF True] assms(2) show ?thesis
      by (simp add: word_le_nat_alt)
  next
    case False
    with assms(1) show ?thesis by (simp add: word_less_nat_alt)
  qed
  then have "255 \<le> n" by (simp add: word_le_nat_alt)
  then have "unat (n - 255) = unat n - 255" by (simp add: unat_sub)
  then show ?thesis by (simp add: windowSize_def)
qed

lemma in_window_arith:
  fixes n off :: u64
  assumes "unat off \<le> unat n" "unat n < unat off + 256"
  shows "unat (ucast (n - off) :: u8) = unat n - unat off"
proof -
  have "unat (n - off) = unat n - unat off"
    using assms by (simp add: unat_sub word_le_nat_alt)
  moreover have "unat (ucast (n - off) :: u8) = unat (n - off) mod 256"
    by (simp add: unsigned_ucast_eq take_bit_nat_def)
  ultimately show ?thesis using assms by simp
qed

section \<open>The three branches of CheckAndSetNonce\<close>

lemma CheckAndSetNonce_below:
  "n < offset w \<Longrightarrow> CheckAndSetNonce w n = ((ReasonOutOfWindow, False), w)"
  by (simp add: CheckAndSetNonce_def)

lemma CheckAndSetNonce_shift:
  assumes "\<not> n < offset w" "offset w + windowSize \<le> n"
  shows "CheckAndSetNonce w n =
     ((ReasonShift, True),
      \<lparr>offset = n - 256 + 1,
       bitmap = setBit (shiftLeft (bitmap w) (n - 256 + 1 - offset w)) 255\<rparr>)"
proof -
  have u: "ucast (n - (n - 256 + 1)) = (255 :: u8)" by simp
  show ?thesis
    using assms by (simp add: CheckAndSetNonce_def Let_def u windowSize_def)
qed

lemma CheckAndSetNonce_inside:
  assumes "unat (offset w) < 2 ^ 64 - 256"
    and "unat (offset w) \<le> unat n" "unat n < unat (offset w) + 256"
  shows "CheckAndSetNonce w n =
     (if isBitSet (bitmap w) (ucast (n - offset w)) then ((ReasonReuse, False), w)
      else ((ReasonFirst, True), w\<lparr>bitmap := setBit (bitmap w) (ucast (n - offset w))\<rparr>))"
proof -
  from no_overflow_add [OF assms(1)] assms(2,3) show ?thesis
    by (simp add: CheckAndSetNonce_def Let_def word_less_nat_alt word_le_nat_alt)
qed

lemma CheckAndSetNonce_reason_below:
  "fst (fst (CheckAndSetNonce w n)) = ReasonOutOfWindow \<longleftrightarrow> n < offset w"
  by (simp add: CheckAndSetNonce_def Let_def)

lemma CheckAndSetNonce_reason_shift:
  "fst (fst (CheckAndSetNonce w n)) = ReasonShift \<longleftrightarrow>
     \<not> n < offset w \<and> offset w + windowSize \<le> n"
  by (simp add: CheckAndSetNonce_def Let_def)

text \<open>
  Claim C4. For every window and every nonce \<open>n\<close> with \<open>n \<ge> offset + 256\<close>, read as
  numbers or as the test the code makes after \<^verbatim>\<open>nonce < window.offset\<close> has failed,
  \<^verbatim>\<open>CheckAndSetNonce\<close> returns \<open>(Shift, true)\<close>, the offset becomes \<open>n - 256 + 1\<close>
  (no wrap-around: it is the number \<open>n - 255\<close>), the bitmap is shifted by the distance
  the offset moved, and the one bit then set is bit \<open>n - newOffset = 255\<close>: bit
  \<open>q\<close> of the new bitmap is set exactly when \<open>q = 255\<close> or bit \<open>q\<close> of the
  shifted bitmap is, which is bit \<open>q + shift\<close> of the old one. On the fresh window,
  nonce 300 gives \<open>(Shift, true)\<close> and offset 45.
\<close>

theorem CheckAndSetNonce_above_window:
  assumes "unat (offset w) + 256 \<le> unat n \<or> (\<not> n < offset w \<and> offset w + windowSize \<le> n)"
  shows "CheckAndSetNonce w n =
       ((ReasonShift, True),
        \<lparr>offset = n - 256 + 1,
         bitmap = setBit (shiftLeft (bitmap w) (n - 256 + 1 - offset w)) 255\<rparr>)
     \<and> unat (n - 256 + 1) = unat n - 255
     \<and> (ucast (n - (n - 256 + 1)) :: u8) = 255
     \<and> isBitSet (bitmap (snd (CheckAndSetNonce w n))) 255
     \<and> (\<forall>q. isBitSet (bitmap (snd (CheckAndSetNonce w n))) q =
            (q = 255 \<or> isBitSet (shiftLeft (bitmap w) (n - 256 + 1 - offset w)) q))
     \<and> (\<forall>q. isBitSet (bitmap (snd (CheckAndSetNonce w n))) q =
            (q = 255 \<or>
             unat q + unat (n - 256 + 1 - offset w) < 256 \<and>
             isBitSet (bitmap w) (q + ucast (n - 256 + 1 - offset w))))
     \<and> CheckAndSetNonce new_SlidingWindow 300 =
         ((ReasonShift, True), \<lparr>offset = 45, bitmap = (0, 0, 0, 1)\<rparr>)"
proof -
  from assms have br: "\<not> n < offset w" "offset w + windowSize \<le> n"
    using above_window_arith(1,2) [of "offset w" n] by blast+
  have s: "shiftLeft (0, 0, 0, 0) a = (0, 0, 0, 0)" for a
    by (simp add: shiftLeft_def)
  have b: "setBit (0, 0, 0, 0) 255 = (0, 0, 0, 1)"
    by (simp add: setBit_def)
  have f: "CheckAndSetNonce new_SlidingWindow 300 =
         ((ReasonShift, True), \<lparr>offset = 45, bitmap = (0, 0, 0, 1)\<rparr>)"
    using CheckAndSetNonce_shift [of 300 new_SlidingWindow]
    by (simp add: new_SlidingWindow_def windowSize_def s b)
  have a: "unat (n - 255) = unat n - 255"
    using shift_branch_new_offset [OF br] by (simp add: windowSize_def)
  have "isBitSet (bitmap (snd (CheckAndSetNonce w n))) q =
      (q = 255 \<or> isBitSet (shiftLeft (bitmap w) (n - 256 + 1 - offset w)) q)" for q
    by (simp add: CheckAndSetNonce_shift [OF br] isBitSet_setBit)
  then show ?thesis
    by (simp add: CheckAndSetNonce_shift [OF br] isBitSet_setBit isBitSet_shiftLeft a f)
qed

theorem CheckAndSetNonce_above_window_witness:
  "unat (offset \<lparr>offset = 45, bitmap = (0, 0, 0, 1)\<rparr>) + 256 \<le> unat (302 :: u64)
   \<and> CheckAndSetNonce \<lparr>offset = 45, bitmap = (0, 0, 0, 1)\<rparr> 302 =
       ((ReasonShift, True), \<lparr>offset = 47, bitmap = (0, 0, 0, 5)\<rparr>)"
  using CheckAndSetNonce_above_window [of "\<lparr>offset = 45, bitmap = (0, 0, 0, 1)\<rparr>" 302]
  by (simp add: shiftLeft_def setBit_def)

text \<open>
  Claim C9. Whenever \<^verbatim>\<open>CheckAndSetNonce\<close> returns \<open>(OutOfWindow, false)\<close> or
  \<open>(Reuse, false)\<close>, the window after the call is the window before it: neither the
  offset nor the bitmap has changed.
\<close>

theorem rejected_nonce_no_mutation:
  assumes "fst (CheckAndSetNonce w n) = (ReasonOutOfWindow, False)
         \<or> fst (CheckAndSetNonce w n) = (ReasonReuse, False)"
  shows "snd (CheckAndSetNonce w n) = w"
  using assms by (auto simp add: CheckAndSetNonce_def Let_def split: if_splits)

theorem rejected_nonce_no_mutation_witness:
  "fst (CheckAndSetNonce \<lparr>offset = 45, bitmap = (0, 0, 0, 1)\<rparr> 300) = (ReasonReuse, False)
   \<and> snd (CheckAndSetNonce \<lparr>offset = 45, bitmap = (0, 0, 0, 1)\<rparr> 300) = \<lparr>offset = 45, bitmap = (0, 0, 0, 1)\<rparr>"
proof -
  have r: "fst (CheckAndSetNonce \<lparr>offset = 45, bitmap = (0, 0, 0, 1)\<rparr> 300) = (ReasonReuse, False)"
    by (simp add: CheckAndSetNonce_def windowSize_def isBitSet_def)
  then show ?thesis
    using rejected_nonce_no_mutation [of "\<lparr>offset = 45, bitmap = (0, 0, 0, 1)\<rparr>" 300] by simp
qed

text \<open>
  Claim C7. For every window and nonce, the pair returned by \<^verbatim>\<open>CheckAndSetNonce\<close>,
  and the pair returned by \<^verbatim>\<open>CheckNonce\<close>, is one of \<open>(First, true)\<close>,
  \<open>(Reuse, false)\<close>, \<open>(Shift, true)\<close>, \<open>(OutOfWindow, false)\<close>; and each of the
  four is returned at some input.
\<close>

theorem reason_and_bool_agree:
  "fst (CheckAndSetNonce w n) \<in>
      {(ReasonFirst, True), (ReasonReuse, False), (ReasonShift, True), (ReasonOutOfWindow, False)}
   \<and> fst (CheckNonce w n) \<in>
      {(ReasonFirst, True), (ReasonReuse, False), (ReasonShift, True), (ReasonOutOfWindow, False)}
   \<and> fst (CheckAndSetNonce new_SlidingWindow 0) = (ReasonFirst, True)
   \<and> fst (CheckAndSetNonce \<lparr>offset = 45, bitmap = (0, 0, 0, 1)\<rparr> 300) = (ReasonReuse, False)
   \<and> fst (CheckAndSetNonce new_SlidingWindow 300) = (ReasonShift, True)
   \<and> fst (CheckAndSetNonce \<lparr>offset = 45, bitmap = (0, 0, 0, 1)\<rparr> 10) = (ReasonOutOfWindow, False)"
proof -
  have "fst (CheckAndSetNonce new_SlidingWindow 0) = (ReasonFirst, True)"
    and "fst (CheckAndSetNonce \<lparr>offset = 45, bitmap = (0, 0, 0, 1)\<rparr> 300) = (ReasonReuse, False)"
    and "fst (CheckAndSetNonce new_SlidingWindow 300) = (ReasonShift, True)"
    and "fst (CheckAndSetNonce \<lparr>offset = 45, bitmap = (0, 0, 0, 1)\<rparr> 10) = (ReasonOutOfWindow, False)"
    by (simp_all add: CheckAndSetNonce_def new_SlidingWindow_def windowSize_def isBitSet_def)
  then show ?thesis
    by (simp add: CheckNonce_def CheckAndSetNonce_def Let_def)
qed

lemma offset_not_decreasing:
  assumes "in_range w"
  shows "offset w \<le> offset (snd (CheckAndSetNonce w n))"
proof (cases "unat (offset w) + 256 \<le> unat n")
  case True
  from above_window_arith(4) [OF True] above_window_arith(1,2) [OF True]
    CheckAndSetNonce_shift [of n w]
  show ?thesis by (simp add: windowSize_def)
next
  case False
  then have "fst (fst (CheckAndSetNonce w n)) \<noteq> ReasonShift"
    using assms no_overflow_add [of "offset w"]
    by (simp add: CheckAndSetNonce_reason_shift in_range_def word_le_nat_alt)
  then show ?thesis
    by (simp add: CheckAndSetNonce_def Let_def split: if_splits)
qed

text \<open>
  Claim C10. For every window with \<open>offset < 2 ^ 64 - 256\<close> and every nonce \<open>n\<close>,
  one call of \<^verbatim>\<open>CheckAndSetNonce\<close> puts \<open>n\<close> in the right region of
  \<open>[offset, offset + 256)\<close>, all comparisons and subtractions being those of the
  natural numbers: \<open>offset + 256\<close> does not wrap; the answer is \<open>OutOfWindow\<close>
  exactly when \<open>n < offset\<close>; it is \<open>Shift\<close> exactly when \<open>n \<ge> offset + 256\<close>, and
  then the new offset is the number \<open>n - 255\<close> and the shift amount
  \<open>n - 255 - offset\<close>; otherwise the bit tested (and set when it was clear) is bit
  \<open>n - offset\<close>, which fits a \<^verbatim>\<open>uint8\<close>; and the offset does not decrease.
\<close>

theorem CheckAndSetNonce_without_overflow:
  assumes "unat (offset w) < 2 ^ 64 - 256"
  shows "unat (offset w + windowSize) = unat (offset w) + 256
   \<and> (fst (fst (CheckAndSetNonce w n)) = ReasonOutOfWindow \<longleftrightarrow> unat n < unat (offset w))
   \<and> (fst (fst (CheckAndSetNonce w n)) = ReasonShift \<longleftrightarrow> unat (offset w) + 256 \<le> unat n)
   \<and> (unat (offset w) + 256 \<le> unat n \<longrightarrow>
        unat (n - windowSize + 1) = unat n - 255 \<and>
        unat (n - windowSize + 1 - offset w) = unat n - 255 - unat (offset w) \<and>
        unat (offset (snd (CheckAndSetNonce w n))) = unat n - 255)
   \<and> (unat (offset w) \<le> unat n \<and> unat n < unat (offset w) + 256 \<longrightarrow>
        unat (ucast (n - offset w) :: u8) = unat n - unat (offset w) \<and>
        CheckAndSetNonce w n =
          (if isBitSet (bitmap w) (ucast (n - offset w)) then ((ReasonReuse, False), w)
           else ((ReasonFirst, True), w\<lparr>bitmap := setBit (bitmap w) (ucast (n - offset w))\<rparr>)))
   \<and> offset w \<le> offset (snd (CheckAndSetNonce w n))"
proof -
  note add = no_overflow_add [OF assms]
  have 1: "fst (fst (CheckAndSetNonce w n)) = ReasonOutOfWindow \<longleftrightarrow> unat n < unat (offset w)"
    by (simp add: CheckAndSetNonce_reason_below word_less_nat_alt)
  have 2: "fst (fst (CheckAndSetNonce w n)) = ReasonShift \<longleftrightarrow> unat (offset w) + 256 \<le> unat n"
    using add by (auto simp add: CheckAndSetNonce_reason_shift word_less_nat_alt word_le_nat_alt)
  have 3: "unat (n - windowSize + 1) = unat n - 255 \<and>
        unat (n - windowSize + 1 - offset w) = unat n - 255 - unat (offset w) \<and>
        unat (offset (snd (CheckAndSetNonce w n))) = unat n - 255"
    if h: "unat (offset w) + 256 \<le> unat n"
    using above_window_arith(3) [OF h] above_window_arith(1,2) [OF h]
      shift_branch_new_offset [of n "offset w"] CheckAndSetNonce_shift [of n w]
    by (simp add: windowSize_def)
  have 4: "unat (ucast (n - offset w) :: u8) = unat n - unat (offset w) \<and>
        CheckAndSetNonce w n =
          (if isBitSet (bitmap w) (ucast (n - offset w)) then ((ReasonReuse, False), w)
           else ((ReasonFirst, True), w\<lparr>bitmap := setBit (bitmap w) (ucast (n - offset w))\<rparr>))"
    if h: "unat (offset w) \<le> unat n \<and> unat n < unat (offset w) + 256"
    using in_window_arith [of "offset w" n] CheckAndSetNonce_inside [OF assms, of n] h
    by simp
  have 5: "offset w \<le> offset (snd (CheckAndSetNonce w n))"
    using assms by (simp add: offset_not_decreasing in_range_def)
  from add 1 2 3 4 5 show ?thesis by blast
qed

theorem CheckAndSetNonce_without_overflow_witness:
  "unat (offset \<lparr>offset = 45, bitmap = (0, 0, 0, 1)\<rparr>) < 2 ^ 64 - 256
   \<and> unat (ucast (100 - offset \<lparr>offset = 45, bitmap = (0, 0, 0, 1)\<rparr>) :: u8) = 55
   \<and> CheckAndSetNonce \<lparr>offset = 45, bitmap = (0, 0, 0, 1)\<rparr> 100 =
       ((ReasonFirst, True), \<lparr>offset = 45, bitmap = (256, 0, 0, 1)\<rparr>)"
proof -
  have h: "unat (offset \<lparr>offset = 45, bitmap = (0, 0, 0, 1)\<rparr>) < 2 ^ 64 - 256"
    by simp
  show ?thesis
    using CheckAndSetNonce_without_overflow [OF h, of 100] by (simp add: isBitSet_def setBit_def)
qed

section \<open>The peek\<close>

text \<open>
  Claim C5. \<^verbatim>\<open>CheckNonce\<close> never changes the window: offset and bitmap after the call
  are those before it. So any run of peeks on one window answers each nonce as a
  single peek on that window does, and \<open>k\<close> peeks at the same nonce give \<open>k\<close> times
  the same pair.
\<close>

theorem CheckNonce_never_mutates:
  "snd (CheckNonce w n) = w
   \<and> peek_nonces w ns = (map (\<lambda>m. fst (CheckNonce w m)) ns, w)
   \<and> peek_nonces w (replicate k n) = (replicate k (fst (CheckNonce w n)), w)"
proof -
  have 1: "snd (CheckNonce w m) = w" for m
    by (simp add: CheckNonce_def Let_def)
  have 2: "peek_nonces w ms = (map (\<lambda>m. fst (CheckNonce w m)) ms, w)" for ms
  proof (induction ms)
    case Nil
    show ?case by simp
  next
    case (Cons m ms)
    then show ?case by (simp add: Let_def case_prod_beta 1)
  qed
  have "map (\<lambda>m. fst (CheckNonce w m)) (replicate k n) = replicate k (fst (CheckNonce w n))"
    by simp
  with 2 [of "replicate k n"] 1 2 show ?thesis by simp
qed

text \<open>
  Claim C6. For every window and nonce, \<^verbatim>\<open>CheckNonce\<close> returns the pair that
  \<^verbatim>\<open>CheckAndSetNonce\<close> returns on the same window; it differs only in leaving the
  window as it was.
\<close>

theorem CheckNonce_same_answer:
  "fst (CheckNonce w n) = fst (CheckAndSetNonce w n) \<and> snd (CheckNonce w n) = w"
  by (simp add: CheckNonce_def CheckAndSetNonce_def Let_def)

section \<open>Runs that stay below the largest nonce\<close>

text \<open>
  As long as no nonce of a run is \<open>2 ^ 64 - 1\<close>, a window that is \<open>in_range\<close> stays so,
  and the run behaves as a replay window should: the offsets never decrease, a nonce
  that is \<open>recorded\<close> stays recorded and is rejected, and no nonce is accepted twice.
\<close>

lemma in_range_step:
  assumes "in_range w" "unat m < 2 ^ 64 - 1"
  shows "in_range (snd (CheckAndSetNonce w m))"
proof (cases "unat (offset w) + 256 \<le> unat m")
  case True
  have "\<not> m < offset w" "offset w + windowSize \<le> m"
    using above_window_arith(1,2) [OF True] by simp_all
  from CheckAndSetNonce_shift [OF this] shift_branch_new_offset [OF this] assms(2)
  show ?thesis by (simp add: in_range_def windowSize_def)
next
  case False
  then have "fst (fst (CheckAndSetNonce w m)) \<noteq> ReasonShift"
    using assms(1) no_overflow_add [of "offset w"]
    by (simp add: CheckAndSetNonce_reason_shift in_range_def word_le_nat_alt)
  then have "offset (snd (CheckAndSetNonce w m)) = offset w"
    by (simp add: CheckAndSetNonce_def Let_def split: if_splits)
  with assms(1) show ?thesis by (simp add: in_range_def)
qed

lemma recorded_rejected:
  assumes "in_range w" "recorded w n"
  shows "CheckAndSetNonce w n = ((ReasonOutOfWindow, False), w) \<or>
         CheckAndSetNonce w n = ((ReasonReuse, False), w)"
proof (cases "unat n < unat (offset w)")
  case True
  then show ?thesis by (simp add: CheckAndSetNonce_below word_less_nat_alt)
next
  case False
  with assms(2) have "unat n < unat (offset w) + 256"
    and "isBitSet (bitmap w) (ucast (n - offset w))"
    by (simp_all add: recorded_def)
  with False CheckAndSetNonce_inside [of w n] assms(1) show ?thesis
    by (simp add: in_range_def)
qed

lemma accepted_recorded:
  assumes "in_range w" "snd (fst (CheckAndSetNonce w n))"
  shows "recorded (snd (CheckAndSetNonce w n)) n"
proof -
  consider "unat n < unat (offset w)" | "unat (offset w) + 256 \<le> unat n"
    | "unat (offset w) \<le> unat n" "unat n < unat (offset w) + 256"
    by linarith
  then show ?thesis
  proof cases
    case 1
    with assms(2) show ?thesis by (simp add: CheckAndSetNonce_below word_less_nat_alt)
  next
    case 2
    have br: "\<not> n < offset w" "offset w + windowSize \<le> n"
      using above_window_arith(1,2) [OF 2] by simp_all
    have "unat (n - 255) = unat n - 255" "255 \<le> unat n"
      using shift_branch_new_offset [OF br] 2 by (simp_all add: windowSize_def)
    then show ?thesis
      by (simp add: CheckAndSetNonce_shift [OF br] recorded_def isBitSet_setBit)
  next
    case 3
    with CheckAndSetNonce_inside [of w n] assms show ?thesis
      by (simp add: in_range_def recorded_def isBitSet_setBit split: if_splits)
  qed
qed

lemma ucast_add_down: "(ucast (a + b :: u64) :: u8) = ucast a + ucast b"
proof -
  have d: "(256 :: nat) dvd 18446744073709551616" by simp
  have "unat (ucast (a + b) :: u8) = (unat a + unat b) mod 256"
    by (simp add: unsigned_ucast_eq take_bit_nat_def unat_word_ariths mod_mod_cancel [OF d])
  moreover have "unat (ucast a + ucast b :: u8) = (unat a mod 256 + unat b mod 256) mod 256"
    by (simp add: unsigned_ucast_eq take_bit_nat_def unat_word_ariths)
  ultimately show ?thesis
    by (simp add: word_unat_eq_iff mod_add_eq)
qed

lemma recorded_step:
  assumes "in_range w" "recorded w n"
  shows "recorded (snd (CheckAndSetNonce w m)) n"
proof -
  consider "unat m < unat (offset w)" | "unat (offset w) + 256 \<le> unat m"
    | "unat (offset w) \<le> unat m" "unat m < unat (offset w) + 256"
    by linarith
  then show ?thesis
  proof cases
    case 1
    with assms(2) show ?thesis by (simp add: CheckAndSetNonce_below word_less_nat_alt)
  next
    case 2
    have br: "\<not> m < offset w" "offset w + windowSize \<le> m"
      using above_window_arith(1,2) [OF 2] by simp_all
    define o' where "o' = m - 256 + 1"
    have o': "unat o' = unat m - 255"
      using shift_branch_new_offset [OF br] by (simp add: o'_def windowSize_def)
    have s: "unat (o' - offset w) = unat m - 255 - unat (offset w)"
      using above_window_arith(3) [OF 2] by (simp add: o'_def windowSize_def)
    have step: "CheckAndSetNonce w m =
        ((ReasonShift, True),
         \<lparr>offset = o', bitmap = setBit (shiftLeft (bitmap w) (o' - offset w)) 255\<rparr>)"
      using CheckAndSetNonce_shift [OF br] by (simp add: o'_def)
    show ?thesis
    proof (cases "unat n < unat o'")
      case True
      then show ?thesis by (simp add: step recorded_def)
    next
      case False
      with o' 2 have old: "unat (offset w) \<le> unat n" by simp
      with assms(2) False o' 2 have lt: "unat n < unat (offset w) + 256"
        and bit: "isBitSet (bitmap w) (ucast (n - offset w))"
        by (simp_all add: recorded_def)
      have q: "unat (ucast (n - o') :: u8) = unat n - unat o'"
        using in_window_arith [of o' n] False lt o' 2 by simp
      have "(ucast (n - o') :: u8) + ucast (o' - offset w) = ucast (n - offset w)"
        by (simp flip: ucast_add_down)
      with q s o' 2 False lt bit
      have "isBitSet (shiftLeft (bitmap w) (o' - offset w)) (ucast (n - o'))"
        by (simp add: isBitSet_shiftLeft)
      with lt o' 2 show ?thesis
        by (simp add: step recorded_def isBitSet_setBit)
    qed
  next
    case 3
    with CheckAndSetNonce_inside [of w m] assms show ?thesis
      by (auto simp add: in_range_def recorded_def isBitSet_setBit split: if_splits)
  qed
qed

lemma apply_nonces_Cons:
  "apply_nonces w (n # ns) =
     ((fst (CheckAndSetNonce w n), offset (snd (CheckAndSetNonce w n)))
        # fst (apply_nonces (snd (CheckAndSetNonce w n)) ns),
      snd (apply_nonces (snd (CheckAndSetNonce w n)) ns))"
  by (simp add: case_prod_beta)

lemma accepted_nonces_Cons:
  "accepted_nonces w (n # ns) =
     (if snd (fst (CheckAndSetNonce w n)) then [n] else [])
       @ accepted_nonces (snd (CheckAndSetNonce w n)) ns"
  by (simp add: accepted_nonces_def apply_nonces_Cons del: apply_nonces.simps)

lemma in_range_run:
  assumes "in_range w" "\<forall>m \<in> set ns. unat m < 2 ^ 64 - 1"
  shows "in_range (snd (apply_nonces w ns))"
  using assms
proof (induction ns arbitrary: w)
  case Nil
  then show ?case by simp
next
  case (Cons m ms)
  from Cons.prems have "in_range (snd (CheckAndSetNonce w m))"
    by (simp add: in_range_step)
  with Cons show ?case
    by (simp add: apply_nonces_Cons del: apply_nonces.simps)
qed

lemma offsets_sorted:
  assumes "in_range w" "\<forall>m \<in> set ns. unat m < 2 ^ 64 - 1"
  shows "sorted (offset w # map snd (fst (apply_nonces w ns)))"
  using assms
proof (induction ns arbitrary: w)
  case Nil
  then show ?case by simp
next
  case (Cons m ms)
  let ?w' = "snd (CheckAndSetNonce w m)"
  from Cons.prems have r: "in_range ?w'" by (simp add: in_range_step)
  with Cons have "sorted (offset ?w' # map snd (fst (apply_nonces ?w' ms)))" by simp
  moreover have "offset w \<le> offset ?w'"
    using Cons.prems(1) by (rule offset_not_decreasing)
  ultimately show ?case
    by (auto simp add: apply_nonces_Cons simp del: apply_nonces.simps)
qed

lemma offset_run_not_decreasing:
  assumes "in_range w" "\<forall>m \<in> set ns. unat m < 2 ^ 64 - 1"
  shows "offset w \<le> offset (snd (apply_nonces w ns))"
  using assms
proof (induction ns arbitrary: w)
  case Nil
  then show ?case by simp
next
  case (Cons m ms)
  let ?w' = "snd (CheckAndSetNonce w m)"
  from Cons.prems have r: "in_range ?w'" by (simp add: in_range_step)
  with Cons have "offset ?w' \<le> offset (snd (apply_nonces ?w' ms))" by simp
  moreover have "offset w \<le> offset ?w'"
    using Cons.prems(1) by (rule offset_not_decreasing)
  ultimately show ?case
    by (simp add: apply_nonces_Cons del: apply_nonces.simps)
qed

lemma recorded_never_accepted:
  assumes "in_range w" "\<forall>m \<in> set ns. unat m < 2 ^ 64 - 1" "recorded w n"
  shows "n \<notin> set (accepted_nonces w ns)"
  using assms
proof (induction ns arbitrary: w)
  case Nil
  then show ?case by (simp add: accepted_nonces_def)
next
  case (Cons m ms)
  let ?w' = "snd (CheckAndSetNonce w m)"
  from Cons.prems have "in_range ?w'" by (simp add: in_range_step)
  moreover from Cons.prems have "recorded ?w' n" by (simp add: recorded_step)
  ultimately have tl: "n \<notin> set (accepted_nonces ?w' ms)"
    using Cons by simp
  have "\<not> snd (fst (CheckAndSetNonce w n))"
    using recorded_rejected [OF Cons.prems(1,3)] by auto
  with tl show ?case
    by (auto simp add: accepted_nonces_Cons)
qed

lemma accepted_nonces_distinct:
  assumes "in_range w" "\<forall>m \<in> set ns. unat m < 2 ^ 64 - 1"
  shows "distinct (accepted_nonces w ns)"
  using assms
proof (induction ns arbitrary: w)
  case Nil
  then show ?case by (simp add: accepted_nonces_def)
next
  case (Cons m ms)
  let ?w' = "snd (CheckAndSetNonce w m)"
  from Cons.prems have r: "in_range ?w'" by (simp add: in_range_step)
  with Cons have d: "distinct (accepted_nonces ?w' ms)" by simp
  show ?case
  proof (cases "snd (fst (CheckAndSetNonce w m))")
    case True
    with Cons.prems(1) have "recorded ?w' m" by (simp add: accepted_recorded)
    with r Cons.prems(2) have "m \<notin> set (accepted_nonces ?w' ms)"
      by (simp add: recorded_never_accepted)
    with d True show ?thesis by (simp add: accepted_nonces_Cons)
  next
    case False
    with d show ?thesis by (simp add: accepted_nonces_Cons)
  qed
qed

lemma passed_nonce_stays_rejected:
  assumes "in_range w" "\<forall>m \<in> set ns. unat m < 2 ^ 64 - 1" "n < offset w"
  shows "fst (CheckAndSetNonce (snd (apply_nonces w ns)) n) = (ReasonOutOfWindow, False)"
proof -
  from offset_run_not_decreasing [OF assms(1,2)] assms(3)
  have "n < offset (snd (apply_nonces w ns))" by simp
  then show ?thesis by (simp add: CheckAndSetNonce_below)
qed

lemma in_range_new: "in_range new_SlidingWindow"
  by (simp add: in_range_def new_SlidingWindow_def)

section \<open>The wrap-around of \<^verbatim>\<open>window.offset+windowSize\<close>\<close>

text \<open>
  Claim C1 says that the offset never decreases along any sequence of
  \<^verbatim>\<open>CheckAndSetNonce\<close> calls from the fresh window. The code at the nonces
  \<open>2 ^ 64 - 1\<close>, \<open>2 ^ 64 - 256\<close>: the first call moves the offset to
  \<open>2 ^ 64 - 256\<close>; in the second, \<^verbatim>\<open>window.offset+windowSize\<close> wraps to 0, the nonce
  (the lowest one of the window) is taken to be right of the window, and the offset
  drops to \<open>2 ^ 64 - 511\<close>.
\<close>

theorem offset_decreases_after_wrap:
  "offset (snd (CheckAndSetNonce new_SlidingWindow 18446744073709551615)) = 18446744073709551360
   \<and> fst (CheckAndSetNonce
             (snd (CheckAndSetNonce new_SlidingWindow 18446744073709551615))
             18446744073709551360) = (ReasonShift, True)
   \<and> offset (snd (CheckAndSetNonce
             (snd (CheckAndSetNonce new_SlidingWindow 18446744073709551615))
             18446744073709551360)) = 18446744073709551105
   \<and> apply_nonces new_SlidingWindow [18446744073709551615, 18446744073709551360] =
       ([((ReasonShift, True), 18446744073709551360), ((ReasonShift, True), 18446744073709551105)],
        \<lparr>offset = 18446744073709551105, bitmap = (0, 0, 0, 1)\<rparr>)"
  by (simp add: CheckAndSetNonce_def new_SlidingWindow_def windowSize_def Let_def
      shiftLeft_def setBit_def)

text \<open>
  Claim C2 says that no nonce is accepted twice while the offset has not passed it. The
  code at the nonce \<open>2 ^ 64 - 1\<close>, given twice to the fresh window: both calls return
  \<open>(Shift, true)\<close>. After the first the offset is \<open>2 ^ 64 - 256\<close>, so
  \<^verbatim>\<open>window.offset+windowSize\<close> wraps to 0 in the second, which never reaches the bit
  test that would have answered \<open>Reuse\<close>.
\<close>

theorem largest_nonce_accepted_twice:
  "apply_nonces new_SlidingWindow [18446744073709551615, 18446744073709551615] =
       ([((ReasonShift, True), 18446744073709551360), ((ReasonShift, True), 18446744073709551360)],
        \<lparr>offset = 18446744073709551360, bitmap = (0, 0, 0, 1)\<rparr>)"
  by (simp add: CheckAndSetNonce_def new_SlidingWindow_def windowSize_def Let_def
      shiftLeft_def setBit_def)

end
